theory Spec2Isabelle
  imports Main "HOL-Library.Multiset" "HOL-Library.Word"
begin

section \<open>The environment: files and streams\<close>

text \<open>
  The program reads \<^verbatim>\<open>Input.txt\<close>, permutes its non-blank lines and writes them to
  \<^verbatim>\<open>Output.txt\<close>. A file is the sequence of characters a text-mode stream delivers
  or accepts; the line terminator seen by \<^verbatim>\<open>std::getline\<close> and written by
  \<^verbatim>\<open>std::endl\<close> is the character \<^verbatim>\<open>'\n'\<close>.

  A file system gives the content of every existing file and says which names can be
  opened for reading and which for writing (creating or truncating).
\<close>

type_synonym fname = string

definition newline :: char where
  "newline = CHR 0x0A"

record filesystem =
  files :: "fname \<rightharpoonup> string"
  readable :: "fname \<Rightarrow> bool"
  writable :: "fname \<Rightarrow> bool"

text \<open>
  \<^verbatim>\<open>std::ifstream\<close>: the characters not yet extracted and the two state bits the
  program can observe. A stream converts to \<^verbatim>\<open>true\<close> exactly when \<open>failbit\<close> is clear
  (no \<open>badbit\<close>: a read error of the device is outside the model).
\<close>

record istream =
  rdbuf :: string
  eofbit :: bool
  failbit :: bool

text \<open>
  \<^verbatim>\<open>std::ifstream infile(fname)\<close>: a file that is missing or cannot be opened leaves
  the stream with \<open>failbit\<close> set; no exception is thrown.
\<close>

definition ifstream_open :: "filesystem \<Rightarrow> fname \<Rightarrow> istream" where
  "ifstream_open fs fname =
     (case files fs fname of
        None \<Rightarrow> \<lparr>rdbuf = [], eofbit = False, failbit = True\<rparr>
      | Some c \<Rightarrow>
          if readable fs fname then \<lparr>rdbuf = c, eofbit = False, failbit = False\<rparr>
          else \<lparr>rdbuf = [], eofbit = False, failbit = True\<rparr>)"

text \<open>
  \<^verbatim>\<open>std::getline(infile, strLine)\<close>. On a stream that is not good the sentry sets
  \<open>failbit\<close> and the string is left as it is. Otherwise the string is erased and
  characters are extracted up to the next \<^verbatim>\<open>'\n'\<close>, which is extracted and dropped, or
  up to the end of the file, which sets \<open>eofbit\<close>; when nothing at all was extracted,
  \<open>failbit\<close> is set.
\<close>

definition getline :: "istream \<Rightarrow> string \<Rightarrow> istream \<times> string" where
  "getline infile strLine =
     (if eofbit infile \<or> failbit infile then (infile\<lparr>failbit := True\<rparr>, strLine)
      else
        let line = takeWhile (\<lambda>c. c \<noteq> newline) (rdbuf infile) in
        (case dropWhile (\<lambda>c. c \<noteq> newline) (rdbuf infile) of
           [] \<Rightarrow> (\<lparr>rdbuf = [], eofbit = True, failbit = (line = [])\<rparr>, line)
         | d # rest \<Rightarrow> (\<lparr>rdbuf = rest, eofbit = False, failbit = False\<rparr>, line)))"

lemma getline_consumes:
  "getline infile strLine = (infile', strLine') \<Longrightarrow> \<not> failbit infile' \<Longrightarrow>
   length (rdbuf infile') < length (rdbuf infile)"
proof -
  assume g: "getline infile strLine = (infile', strLine')" and ok: "\<not> failbit infile'"
  have len: "length (takeWhile (\<lambda>c. c \<noteq> newline) (rdbuf infile))
             + length (dropWhile (\<lambda>c. c \<noteq> newline) (rdbuf infile)) = length (rdbuf infile)"
    by (metis length_append takeWhile_dropWhile_id)
  show ?thesis
  proof (cases "eofbit infile \<or> failbit infile")
    case True
    with g ok show ?thesis by (auto simp: getline_def)
  next
    case False
    show ?thesis
    proof (cases "dropWhile (\<lambda>c. c \<noteq> newline) (rdbuf infile)")
      case Nil
      with g ok False len show ?thesis by (auto simp: getline_def Let_def)
    next
      case (Cons d rest)
      with g ok False len show ?thesis by (auto simp: getline_def Let_def)
    qed
  qed
qed

section \<open>ReadStrings\<close>

text \<open>
  \<^verbatim>\<open>v.clear()\<close>, then the loop
  \<^verbatim>\<open>while(std::getline(infile, strLine)) if(!strLine.empty()) v.push_back(strLine);\<close>
  The vector \<open>v\<close> is an output parameter: its prior content is an argument of the model.
\<close>

definition clear :: "'a list \<Rightarrow> 'a list" where
  "clear v = []"

definition push_back :: "'a list \<Rightarrow> 'a \<Rightarrow> 'a list" where
  "push_back v x = v @ [x]"

function ReadStrings_loop :: "istream \<Rightarrow> string \<Rightarrow> string list \<Rightarrow> string list" where
  "ReadStrings_loop infile strLine v =
     (case getline infile strLine of
        (infile', strLine') \<Rightarrow>
          if failbit infile' then v
          else ReadStrings_loop infile' strLine'
                 (if strLine' \<noteq> [] then push_back v strLine' else v))"
  by pat_completeness auto
termination
  by (relation "measure (\<lambda>(infile, strLine, v). length (rdbuf infile))")
     (auto dest: getline_consumes [OF sym])

declare ReadStrings_loop.simps [simp del]

definition ReadStrings :: "filesystem \<Rightarrow> fname \<Rightarrow> string list \<Rightarrow> string list" where
  "ReadStrings fs fname v = ReadStrings_loop (ifstream_open fs fname) [] (clear v)"

section \<open>GetEpochTime and the random engine\<close>

text \<open>
  \<^verbatim>\<open>GetEpochTime<unsigned>()\<close> casts the value of \<^verbatim>\<open>std::time(0)\<close>, a 64-bit
  \<^verbatim>\<open>time_t\<close> counting whole seconds, to \<^verbatim>\<open>unsigned\<close>: the low 32 bits.
\<close>

type_synonym time_t = "64 word"

definition GetEpochTime :: "time_t \<Rightarrow> 32 word" where
  "GetEpochTime now = ucast now"

text \<open>
  \<^verbatim>\<open>std::default_random_engine\<close> and \<^verbatim>\<open>std::uniform_int_distribution\<close> belong to the
  standard library, and which engine and which sampling algorithm they are is left to
  the implementation. They are parameters of the model: \<open>seed\<close> maps the 32-bit seed to
  an engine state, and \<open>draw i g\<close> is
  \<^verbatim>\<open>std::uniform_int_distribution<size_t>(0, i)(stdRandom)\<close> on the engine state
  \<open>g\<close>: the number drawn and the engine state afterwards. Both are functions: the
  engine is a deterministic pseudo-random generator.
\<close>

type_synonym 'g rng = "nat \<Rightarrow> 'g \<Rightarrow> nat \<times> 'g"

text \<open>The library's contract: a draw from the range \<open>[0, i]\<close> lies in it.\<close>

definition in_range :: "'g rng \<Rightarrow> bool" where
  "in_range draw = (\<forall>i g. fst (draw i g) \<le> i)"

section \<open>Randomize\<close>

text \<open>
  \<^verbatim>\<open>std::swap(v[i], v[j])\<close>. In the loop \<open>i\<close> is below the size of the vector, and so
  is \<open>j\<close> when the draw keeps to its range \<open>[0, i]\<close>; an index outside the vector is
  undefined behaviour in C++, and the properties of the shuffle are stated for draws
  within their ranges.
\<close>

definition swap :: "'a list \<Rightarrow> nat \<Rightarrow> nat \<Rightarrow> 'a list" where
  "swap v i j = v[i := v ! j, j := v ! i]"

lemma length_swap [simp]: "length (swap v i j) = length v"
  by (simp add: swap_def)

text \<open>
  \<^verbatim>\<open>for(size_t i=0; i<v.size(); i++) std::swap(v[i], v[uniform_int_distribution<size_t>(0, i)(stdRandom)]);\<close>
  The loop from index \<open>i\<close> on; it returns the engine state next to the vector.
\<close>

function Randomize_loop :: "'g rng \<Rightarrow> nat \<Rightarrow> 'g \<Rightarrow> 'a list \<Rightarrow> 'g \<times> 'a list" where
  "Randomize_loop draw i stdRandom v =
     (if i < length v then
        (case draw i stdRandom of
           (j, stdRandom') \<Rightarrow> Randomize_loop draw (Suc i) stdRandom' (swap v i j))
      else (stdRandom, v))"
  by pat_completeness auto
termination
  by (relation "measure (\<lambda>(draw, i, stdRandom, v). length v - i)") auto

declare Randomize_loop.simps [simp del]

definition Randomize :: "'g rng \<Rightarrow> (32 word \<Rightarrow> 'g) \<Rightarrow> time_t \<Rightarrow> 'a list \<Rightarrow> 'a list" where
  "Randomize draw seed now v = snd (Randomize_loop draw 0 (seed (GetEpochTime now)) v)"

subsection \<open>Generators used to state and test the properties\<close>

text \<open>
  A generator whose draws are forced: its state is the list of the draws still to
  come (0 once the list is used up).
\<close>

fun forced :: "nat list rng" where
  "forced i [] = (0, [])"
| "forced i (j # js) = (j, js)"

text \<open>A generator whose state counts the draws it has served; every draw is 0.\<close>

definition counting :: "nat rng" where
  "counting i g = (0, Suc g)"

text \<open>A generator whose draw from the range \<open>[0, i]\<close> is always \<open>i\<close>.\<close>

definition echo :: "unit rng" where
  "echo i g = (i, g)"

text \<open>
  The draw sequences \<open>(j\<^sub>0, \<dots>, j\<^sub>n\<^sub>-\<^sub>1)\<close> with \<open>j\<^sub>i\<close> in \<open>[0, i]\<close>:
  \<open>bounded_from i js\<close> says that the draws \<open>js\<close>, made from index \<open>i\<close> on, are each
  within the range requested.
\<close>

fun bounded_from :: "nat \<Rightarrow> nat list \<Rightarrow> bool" where
  "bounded_from i [] = True"
| "bounded_from i (j # js) = (j \<le> i \<and> bounded_from (Suc i) js)"

definition draw_seqs :: "nat \<Rightarrow> nat list set" where
  "draw_seqs n = {js. length js = n \<and> bounded_from 0 js}"

text \<open>The draws a generator makes on its way from index \<open>i\<close>, \<open>k\<close> of them.\<close>

fun draws_of :: "'g rng \<Rightarrow> nat \<Rightarrow> 'g \<Rightarrow> nat \<Rightarrow> nat list" where
  "draws_of draw i g 0 = []"
| "draws_of draw i g (Suc k) = (case draw i g of (j, g') \<Rightarrow> j # draws_of draw (Suc i) g' k)"

text \<open>
  The exchanges of a list of draws, applied from index \<open>i\<close> on, and \<open>Randomize\<close> run on
  forced draws.
\<close>

fun apply_draws :: "nat \<Rightarrow> nat list \<Rightarrow> 'a list \<Rightarrow> 'a list" where
  "apply_draws i [] v = v"
| "apply_draws i (j # js) v = apply_draws (Suc i) js (swap v i j)"

definition Randomize_forced :: "nat list \<Rightarrow> 'a list \<Rightarrow> 'a list" where
  "Randomize_forced js v = snd (Randomize_loop forced 0 js v)"

section \<open>WriteStrings\<close>

text \<open>
  \<^verbatim>\<open>std::ofstream outfile(fname)\<close> creates or truncates the file; when it cannot
  be opened the stream has its fail bit set and every insertion is without effect.
  The model keeps the text inserted so far; closing the stream (its destructor) leaves
  that text as the content of the file. Insertions into an open stream are taken to
  succeed (a full disk is outside the model).
\<close>

record ostream =
  target :: fname
  written :: string
  ofailbit :: bool

definition ofstream_open :: "filesystem \<Rightarrow> fname \<Rightarrow> ostream" where
  "ofstream_open fs fname = \<lparr>target = fname, written = [], ofailbit = \<not> writable fs fname\<rparr>"

definition put :: "ostream \<Rightarrow> string \<Rightarrow> ostream" where
  "put outfile s = (if ofailbit outfile then outfile else outfile\<lparr>written := written outfile @ s\<rparr>)"

definition endl :: "ostream \<Rightarrow> ostream" where
  "endl outfile = put outfile [newline]"

definition ofstream_close :: "filesystem \<Rightarrow> ostream \<Rightarrow> filesystem" where
  "ofstream_close fs outfile =
     (if ofailbit outfile then fs
      else fs\<lparr>files := (files fs)(target outfile \<mapsto> written outfile)\<rparr>)"

text \<open>\<^verbatim>\<open>for(const std::string& s: v) outfile << s << std::endl;\<close>\<close>

fun WriteStrings_loop :: "ostream \<Rightarrow> string list \<Rightarrow> ostream" where
  "WriteStrings_loop outfile [] = outfile"
| "WriteStrings_loop outfile (s # v) = WriteStrings_loop (endl (put outfile s)) v"

definition WriteStrings :: "filesystem \<Rightarrow> fname \<Rightarrow> string list \<Rightarrow> filesystem" where
  "WriteStrings fs fname v = ofstream_close fs (WriteStrings_loop (ofstream_open fs fname) v)"

section \<open>main\<close>

text \<open>
  The command line is ignored. The result is the exit code and the file system the
  run leaves behind.
\<close>

definition Input_txt :: fname where
  "Input_txt = ''Input.txt''"

definition Output_txt :: fname where
  "Output_txt = ''Output.txt''"

definition main :: "'g rng \<Rightarrow> (32 word \<Rightarrow> 'g) \<Rightarrow> time_t \<Rightarrow> filesystem \<Rightarrow> int \<times> filesystem" where
  "main draw seed now fs =
     (let vecStrings = ReadStrings fs Input_txt [];
          vecStrings = Randomize draw seed now vecStrings;
          fs = WriteStrings fs Output_txt vecStrings
      in (0, fs))"

section \<open>Notions of the specification\<close>

text \<open>
  The lines of a text: the pieces between its line terminators (a text with \<open>k\<close>
  terminators has \<open>k + 1\<close> lines, the last one being what follows the last terminator).
  The non-blank lines are those of length greater than zero.
\<close>

fun split_lines :: "string \<Rightarrow> string list" where
  "split_lines [] = [[]]"
| "split_lines (c # cs) =
     (if c = newline then [] # split_lines cs
      else (case split_lines cs of l # ls \<Rightarrow> (c # l) # ls | [] \<Rightarrow> [[c]]))"

definition nonblank_lines :: "string \<Rightarrow> string list" where
  "nonblank_lines text = filter (\<lambda>l. l \<noteq> []) (split_lines text)"

text \<open>Putting the lines together again, with a terminator between any two of them.\<close>

fun join_lines :: "string list \<Rightarrow> string" where
  "join_lines [] = []"
| "join_lines [l] = l"
| "join_lines (l # l' # ls) = l @ newline # join_lines (l' # ls)"

text \<open>One record of the output: the string followed by a line break.\<close>

definition record_of :: "string \<Rightarrow> string" where
  "record_of s = s @ [newline]"

text \<open>
  The shuffle as the specification words it: for the index \<open>i\<close> running from 0 to
  \<open>n - 1\<close> in increasing order, draw one number \<open>j\<close> from \<open>[0, i]\<close> and exchange the
  elements at the positions \<open>i\<close> and \<open>j\<close>.
\<close>

definition exchange_step :: "'g rng \<Rightarrow> nat \<Rightarrow> 'g \<times> 'a list \<Rightarrow> 'g \<times> 'a list" where
  "exchange_step draw i = (\<lambda>(g, v). case draw i g of (j, g') \<Rightarrow> (g', swap v i j))"

definition shuffle_steps :: "'g rng \<Rightarrow> 'g \<Rightarrow> 'a list \<Rightarrow> 'g \<times> 'a list" where
  "shuffle_steps draw g v = fold (exchange_step draw) [0..<length v] (g, v)"

text \<open>A file system and an input text to try the program on.\<close>

definition example_text :: string where
  "example_text = ''a b'' @ [newline, newline] @ '' c'' @ [newline] @ ''d''"

definition example_fs :: filesystem where
  "example_fs = \<lparr>files = [Input_txt \<mapsto> example_text, Output_txt \<mapsto> ''old''],
                  readable = (\<lambda>f. True), writable = (\<lambda>f. True)\<rparr>"

definition missing_fs :: filesystem where
  "missing_fs = \<lparr>files = [Output_txt \<mapsto> ''old''],
                  readable = (\<lambda>f. True), writable = (\<lambda>f. True)\<rparr>"

section \<open>Lemmas about the reader\<close>

lemma split_lines_nonempty: "split_lines c \<noteq> []"
  by (induction c) (auto split: list.splits)

lemma split_lines_last: "newline \<notin> set l \<Longrightarrow> split_lines l = [l]"
  by (induction l) auto

lemma split_lines_line:
  "newline \<notin> set l \<Longrightarrow> split_lines (l @ newline # rest) = l # split_lines rest"
  by (induction l) auto

lemma takeWhile_no_newline: "newline \<notin> set (takeWhile (\<lambda>x. x \<noteq> newline) c)"
  by (induction c) auto

lemma split_lines_Nil:
  assumes "dropWhile (\<lambda>x. x \<noteq> newline) c = []"
  shows "split_lines c = [takeWhile (\<lambda>x. x \<noteq> newline) c]"
proof -
  have eq: "takeWhile (\<lambda>x. x \<noteq> newline) c = c"
    using takeWhile_dropWhile_id [of "\<lambda>x. x \<noteq> newline" c] by (simp only: assms append_Nil2)
  have "newline \<notin> set c"
    using takeWhile_no_newline [of c] unfolding eq .
  then have "split_lines c = [c]"
    by (rule split_lines_last)
  then show ?thesis
    by (simp only: eq)
qed

lemma split_lines_Cons:
  assumes "dropWhile (\<lambda>x. x \<noteq> newline) c = d # rest"
  shows "split_lines c = takeWhile (\<lambda>x. x \<noteq> newline) c # split_lines rest"
proof -
  have "\<not> (hd (dropWhile (\<lambda>x. x \<noteq> newline) c) \<noteq> newline)"
    by (rule hd_dropWhile) (simp add: assms)
  then have d: "d = newline"
    by (simp add: assms)
  have "split_lines (takeWhile (\<lambda>x. x \<noteq> newline) c @ dropWhile (\<lambda>x. x \<noteq> newline) c)
        = takeWhile (\<lambda>x. x \<noteq> newline) c # split_lines rest"
    by (simp only: assms d split_lines_line [OF takeWhile_no_newline])
  then show ?thesis
    by (simp only: takeWhile_dropWhile_id)
qed

lemma ReadStrings_loop_stopped:
  "eofbit infile \<or> failbit infile \<Longrightarrow> ReadStrings_loop infile strLine v = v"
  by (subst ReadStrings_loop.simps) (simp add: getline_def)

lemma ReadStrings_loop_good:
  "\<not> eofbit infile \<Longrightarrow> \<not> failbit infile \<Longrightarrow>
   ReadStrings_loop infile strLine v = v @ nonblank_lines (rdbuf infile)"
proof (induction "length (rdbuf infile)" arbitrary: infile strLine v rule: less_induct)
  case less
  let ?line = "takeWhile (\<lambda>x. x \<noteq> newline) (rdbuf infile)"
  show ?case
  proof (cases "dropWhile (\<lambda>x. x \<noteq> newline) (rdbuf infile)")
    case Nil
    have g: "getline infile strLine =
        (\<lparr>rdbuf = [], eofbit = True, failbit = (?line = [])\<rparr>, ?line)"
      using less.prems by (simp add: getline_def Let_def Nil)
    have nb: "nonblank_lines (rdbuf infile) = (if ?line = [] then [] else [?line])"
      by (simp add: nonblank_lines_def split_lines_Nil [OF Nil])
    show ?thesis
      by (subst ReadStrings_loop.simps)
         (simp add: g nb ReadStrings_loop_stopped push_back_def)
  next
    case (Cons d rest)
    have g: "getline infile strLine =
        (\<lparr>rdbuf = rest, eofbit = False, failbit = False\<rparr>, ?line)"
      using less.prems by (simp add: getline_def Let_def Cons)
    have "length (?line @ d # rest) = length (rdbuf infile)"
      using Cons by (metis takeWhile_dropWhile_id)
    then have shorter: "length rest < length (rdbuf infile)"
      by simp
    have nb: "nonblank_lines (rdbuf infile) =
        (if ?line = [] then [] else [?line]) @ nonblank_lines rest"
      by (simp add: nonblank_lines_def split_lines_Cons [OF Cons])
    have ih: "ReadStrings_loop \<lparr>rdbuf = rest, eofbit = False, failbit = False\<rparr> ?line w
              = w @ nonblank_lines rest" for w
      using less.hyps [of "\<lparr>rdbuf = rest, eofbit = False, failbit = False\<rparr>"] shorter
      by simp
    show ?thesis
      by (subst ReadStrings_loop.simps) (simp add: g nb ih push_back_def)
  qed
qed

lemma ReadStrings_readable:
  "files fs fname = Some c \<Longrightarrow> readable fs fname \<Longrightarrow> ReadStrings fs fname v = nonblank_lines c"
  by (simp add: ReadStrings_def ifstream_open_def ReadStrings_loop_good clear_def)

lemma ReadStrings_unreadable:
  "files fs fname = None \<or> \<not> readable fs fname \<Longrightarrow> ReadStrings fs fname v = []"
  by (auto simp: ReadStrings_def ifstream_open_def ReadStrings_loop_stopped clear_def
           split: option.splits)

section \<open>Lemmas about the line format and the writer\<close>

lemma join_split_lines: "join_lines (split_lines c) = c"
proof (induction c)
  case Nil
  show ?case by simp
next
  case (Cons a c)
  obtain l ls where s: "split_lines c = l # ls"
    using split_lines_nonempty [of c] by (cases "split_lines c") auto
  from Cons s show ?case
    by (cases ls) auto
qed

lemma split_lines_no_newline: "l \<in> set (split_lines c) \<Longrightarrow> newline \<notin> set l"
proof (induction c arbitrary: l)
  case Nil
  then show ?case by simp
next
  case (Cons a c)
  obtain l0 ls where s: "split_lines c = l0 # ls"
    using split_lines_nonempty [of c] by (cases "split_lines c") auto
  from Cons s show ?case
    by (auto split: if_splits)
qed

lemma WriteStrings_loop_failed:
  "ofailbit outfile \<Longrightarrow> WriteStrings_loop outfile v = outfile"
  by (induction v arbitrary: outfile) (simp_all add: put_def endl_def)

lemma WriteStrings_loop_open:
  "\<not> ofailbit outfile \<Longrightarrow>
   WriteStrings_loop outfile v = outfile\<lparr>written := written outfile @ concat (map record_of v)\<rparr>"
  by (induction v arbitrary: outfile) (simp_all add: put_def endl_def record_of_def)

lemma WriteStrings_writable:
  "writable fs fname \<Longrightarrow>
   WriteStrings fs fname v = fs\<lparr>files := (files fs)(fname \<mapsto> concat (map record_of v))\<rparr>"
  by (simp add: WriteStrings_def WriteStrings_loop_open ofstream_open_def ofstream_close_def)

lemma WriteStrings_unwritable:
  "\<not> writable fs fname \<Longrightarrow> WriteStrings fs fname v = fs"
  by (simp add: WriteStrings_def WriteStrings_loop_failed ofstream_open_def ofstream_close_def)

lemma nonblank_lines_records:
  "\<forall>s \<in> set v. newline \<notin> set s \<Longrightarrow>
   nonblank_lines (concat (map record_of v)) = filter (\<lambda>l. l \<noteq> []) v"
  by (induction v) (simp_all add: nonblank_lines_def record_of_def split_lines_line)

lemma nonblank_lines_sound:
  "s \<in> set (nonblank_lines c) \<Longrightarrow> s \<noteq> [] \<and> newline \<notin> set s"
  by (auto simp: nonblank_lines_def dest: split_lines_no_newline)

lemma Input_not_Output: "Input_txt \<noteq> Output_txt"
  by (simp add: Input_txt_def Output_txt_def)

lemma count_newlines_records:
  "\<forall>s \<in> set v. newline \<notin> set s \<Longrightarrow>
   length (filter (\<lambda>x. x = newline) (concat (map record_of v))) = length v"
  by (induction v) (auto simp: record_of_def filter_empty_conv)

section \<open>The line reader\<close>

text \<open>
  C4: for every input text that can be read, \<open>ReadStrings\<close> returns exactly the
  non-blank lines of the text (the lines of length greater than zero once the line
  terminator is removed), in their order and with their content as it is in the file;
  so the number of lines returned is the number of non-blank lines of the input.
  Splitting a text into its lines loses nothing: joining the lines gives the text back.
\<close>

theorem ReadStrings_nonblank_lines:
  assumes "files fs fname = Some c" and "readable fs fname"
  shows "ReadStrings fs fname v = filter (\<lambda>l. l \<noteq> []) (split_lines c)
       \<and> length (ReadStrings fs fname v) = length (filter (\<lambda>l. l \<noteq> []) (split_lines c))
       \<and> join_lines (split_lines c) = c"
  using ReadStrings_readable [OF assms, of v]
  by (simp add: nonblank_lines_def join_split_lines)

theorem ReadStrings_nonblank_lines_witness:
  "files example_fs Input_txt = Some example_text \<and> readable example_fs Input_txt
   \<and> ReadStrings example_fs Input_txt [] = [''a b'', '' c'', ''d'']
   \<and> split_lines example_text = [''a b'', [], '' c'', ''d'']"
  using ReadStrings_nonblank_lines [of example_fs Input_txt example_text "[]"]
  by (simp add: example_fs_def example_text_def newline_def Input_not_Output)

text \<open>
  C10: the result of \<open>ReadStrings\<close> does not depend on what the destination vector
  held before the call: the vector is cleared first, so the result is that for an empty
  vector, and for a readable file it is exactly the non-blank lines of the file.
\<close>

theorem ReadStrings_clears:
  "ReadStrings fs fname v = ReadStrings fs fname []
   \<and> (files fs fname = Some c \<and> readable fs fname \<longrightarrow> ReadStrings fs fname v = nonblank_lines c)"
proof (intro conjI impI)
  have "clear v = clear []"
    by (simp add: clear_def)
  then show "ReadStrings fs fname v = ReadStrings fs fname []"
    by (simp add: ReadStrings_def)
  show "ReadStrings fs fname v = nonblank_lines c"
    if "files fs fname = Some c \<and> readable fs fname"
    using that by (simp add: ReadStrings_readable)
qed

theorem ReadStrings_clears_witness:
  "ReadStrings example_fs Input_txt [''stale'', ''data''] = ReadStrings example_fs Input_txt []
   \<and> ReadStrings example_fs Input_txt [''stale'', ''data''] = [''a b'', '' c'', ''d'']"
  using ReadStrings_clears [of example_fs Input_txt "[''stale'', ''data'']" example_text]
  by (auto simp: example_fs_def example_text_def newline_def Input_not_Output nonblank_lines_def)

section \<open>The line writer\<close>

text \<open>
  C5: for every sequence of strings, \<open>WriteStrings\<close> to a destination that can be
  opened for writing leaves each string followed by one line break, in the order of the
  sequence, as the content of the destination, whatever the destination held before;
  strings without an embedded line break give as many line breaks as there are strings,
  and the empty sequence gives an empty file.
\<close>

theorem WriteStrings_records:
  assumes "writable fs fname"
  shows "files (WriteStrings fs fname v) fname = Some (concat (map record_of v))
       \<and> files (WriteStrings (fs\<lparr>files := (files fs)(fname \<mapsto> old)\<rparr>) fname v) fname
           = Some (concat (map record_of v))
       \<and> ((\<forall>s \<in> set v. newline \<notin> set s) \<longrightarrow>
            length (filter (\<lambda>x. x = newline) (concat (map record_of v))) = length v)
       \<and> files (WriteStrings fs fname []) fname = Some []"
proof (intro conjI impI)
  show "files (WriteStrings fs fname v) fname = Some (concat (map record_of v))"
    using assms by (simp add: WriteStrings_writable)
  have "writable (fs\<lparr>files := (files fs)(fname \<mapsto> old)\<rparr>) fname"
    using assms by simp
  then show "files (WriteStrings (fs\<lparr>files := (files fs)(fname \<mapsto> old)\<rparr>) fname v) fname
      = Some (concat (map record_of v))"
    by (simp add: WriteStrings_writable)
  show "length (filter (\<lambda>x. x = newline) (concat (map record_of v))) = length v"
    if "\<forall>s \<in> set v. newline \<notin> set s"
    using that by (rule count_newlines_records)
  show "files (WriteStrings fs fname []) fname = Some []"
    using assms by (simp add: WriteStrings_writable)
qed

theorem WriteStrings_records_witness:
  "writable example_fs Output_txt
   \<and> files example_fs Output_txt = Some ''old''
   \<and> files (WriteStrings example_fs Output_txt [''x'', ''y z'']) Output_txt
       = Some (''x'' @ [newline] @ ''y z'' @ [newline])
   \<and> files (WriteStrings example_fs Output_txt []) Output_txt = Some []"
  using WriteStrings_records [of example_fs Output_txt "[''x'', ''y z'']"]
  by (simp add: example_fs_def record_of_def Input_not_Output)

text \<open>
  C7: round trip. For every sequence of non-empty strings with no embedded line
  terminator, writing the sequence with \<open>WriteStrings\<close> and reading the destination back
  with \<open>ReadStrings\<close> gives the sequence that was written (the destination can be opened
  for writing and for reading).
\<close>

theorem write_then_read:
  assumes "\<forall>s \<in> set v. s \<noteq> [] \<and> newline \<notin> set s"
    and "writable fs fname" and "readable fs fname"
  shows "ReadStrings (WriteStrings fs fname v) fname w = v"
proof -
  have "ReadStrings (WriteStrings fs fname v) fname w = nonblank_lines (concat (map record_of v))"
    using assms(2,3) by (simp add: WriteStrings_writable ReadStrings_readable)
  also have "\<dots> = filter (\<lambda>l. l \<noteq> []) v"
    using assms(1) by (simp add: nonblank_lines_records)
  also have "\<dots> = v"
    using assms(1) by (simp add: filter_id_conv)
  finally show ?thesis .
qed

theorem write_then_read_witness:
  "writable example_fs Output_txt \<and> readable example_fs Output_txt
   \<and> ReadStrings (WriteStrings example_fs Output_txt [''x'', ''y z'']) Output_txt [] = [''x'', ''y z'']"
  using write_then_read [of "[''x'', ''y z'']" example_fs Output_txt "[]"]
  by (simp add: example_fs_def newline_def)

section \<open>Lemmas about the shuffle\<close>

subsection \<open>swap\<close>

lemma swap_same [simp]: "swap v i i = v"
  by (simp add: swap_def)

lemma nth_swap_left: "i < length v \<Longrightarrow> j < length v \<Longrightarrow> swap v i j ! j = v ! i"
  by (simp add: swap_def)

lemma nth_swap_other: "k \<noteq> i \<Longrightarrow> k \<noteq> j \<Longrightarrow> swap v i j ! k = v ! k"
  by (simp add: swap_def)

lemma swap_twice: "i < length v \<Longrightarrow> j < length v \<Longrightarrow> swap (swap v i j) i j = v"
  by (cases "i = j") (simp_all add: swap_def list_update_swap)

lemma mset_swap_vec: "i < length v \<Longrightarrow> j < length v \<Longrightarrow> mset (swap v i j) = mset v"
  unfolding swap_def by (rule mset_swap)

lemma swap_append: "i < length v \<Longrightarrow> j < length v \<Longrightarrow> swap (v @ w) i j = swap v i j @ w"
  by (simp add: swap_def list_update_append1 nth_append)

lemma swap_map: "i < length v \<Longrightarrow> j < length v \<Longrightarrow> swap (map f v) i j = map f (swap v i j)"
  by (simp add: swap_def map_update)

subsection \<open>The loop as a sequence of steps\<close>

lemma Randomize_loop_done: "length v \<le> i \<Longrightarrow> Randomize_loop draw i g v = (g, v)"
  by (subst Randomize_loop.simps) simp

lemma Randomize_loop_step:
  "i < length v \<Longrightarrow> draw i g = (j, g') \<Longrightarrow>
   Randomize_loop draw i g v = Randomize_loop draw (Suc i) g' (swap v i j)"
  by (subst Randomize_loop.simps) simp

lemma Randomize_loop_fold:
  "Randomize_loop draw i g v = fold (exchange_step draw) [i..<length v] (g, v)"
proof (induction draw i g v rule: Randomize_loop.induct)
  case (1 draw i g v)
  show ?case
  proof (cases "i < length v")
    case False
    then show ?thesis by (simp add: Randomize_loop_done)
  next
    case True
    obtain j g' where d: "draw i g = (j, g')" by (cases "draw i g")
    have "Randomize_loop draw i g v = Randomize_loop draw (Suc i) g' (swap v i j)"
      using True d by (rule Randomize_loop_step)
    also have "\<dots> = fold (exchange_step draw) [Suc i..<length v] (g', swap v i j)"
      using "1.IH" [OF True d [symmetric]] by simp
    also have "\<dots> = fold (exchange_step draw) [i..<length v] (g, v)"
      using True d by (simp add: upt_conv_Cons exchange_step_def)
    finally show ?thesis .
  qed
qed

lemma Randomize_loop_forced:
  "length js = length v - i \<Longrightarrow> Randomize_loop forced i js v = ([], apply_draws i js v)"
proof (induction js arbitrary: i v)
  case Nil
  then show ?case by (simp add: Randomize_loop_done)
next
  case (Cons j js)
  then have "i < length v" by simp
  then have "Randomize_loop forced i (j # js) v = Randomize_loop forced (Suc i) js (swap v i j)"
    by (rule Randomize_loop_step) simp
  with Cons show ?case by simp
qed

lemma Randomize_loop_draws_of:
  "snd (Randomize_loop draw i g v) = apply_draws i (draws_of draw i g (length v - i)) v"
proof (induction draw i g v rule: Randomize_loop.induct)
  case (1 draw i g v)
  show ?case
  proof (cases "i < length v")
    case False
    then show ?thesis by (simp add: Randomize_loop_done)
  next
    case True
    obtain j g' where d: "draw i g = (j, g')" by (cases "draw i g")
    from True have l: "length v - i = Suc (length v - Suc i)" by simp
    have "Randomize_loop draw i g v = Randomize_loop draw (Suc i) g' (swap v i j)"
      using True d by (rule Randomize_loop_step)
    then show ?thesis
      using "1.IH" [OF True d [symmetric]] d by (simp add: l)
  qed
qed

lemma bounded_draws_of: "in_range draw \<Longrightarrow> bounded_from i (draws_of draw i g k)"
proof (induction k arbitrary: i g)
  case 0
  show ?case by simp
next
  case (Suc k)
  obtain j g' where d: "draw i g = (j, g')" by (cases "draw i g")
  from Suc.prems have "fst (draw i g) \<le> i" by (simp add: in_range_def)
  with d Suc show ?case by simp
qed

lemma length_draws_of [simp]: "length (draws_of draw i g k) = k"
  by (induction k arbitrary: i g) (auto split: prod.splits)

subsection \<open>Exchanges of a list of draws\<close>

lemma nth_swap_right: "i < length v \<Longrightarrow> j < length v \<Longrightarrow> swap v i j ! i = v ! j"
  by (cases "i = j") (simp_all add: swap_def)

lemma apply_draws_snoc:
  "apply_draws i (js @ [j]) v = swap (apply_draws i js v) (i + length js) j"
  by (induction js arbitrary: i v) simp_all

lemma bounded_from_snoc:
  "bounded_from i (js @ [j]) = (bounded_from i js \<and> j \<le> i + length js)"
  by (induction js arbitrary: i) auto

lemma length_apply_draws [simp]: "length (apply_draws i js v) = length v"
  by (induction js arbitrary: i v) simp_all

lemma mset_apply_draws:
  "bounded_from i js \<Longrightarrow> i + length js \<le> length v \<Longrightarrow> mset (apply_draws i js v) = mset v"
  by (induction js arbitrary: i v) (simp_all add: mset_swap_vec)

lemma apply_draws_beyond:
  "bounded_from i js \<Longrightarrow> i + length js \<le> k \<Longrightarrow> apply_draws i js v ! k = v ! k"
  by (induction js arbitrary: i v) (simp_all add: nth_swap_other)

lemma apply_draws_append:
  "bounded_from i js \<Longrightarrow> i + length js \<le> length v \<Longrightarrow>
   apply_draws i js (v @ w) = apply_draws i js v @ w"
  by (induction js arbitrary: i v) (simp_all add: swap_append)

lemma apply_draws_map:
  "bounded_from i js \<Longrightarrow> i + length js \<le> length v \<Longrightarrow>
   apply_draws i js (map f v) = map f (apply_draws i js v)"
  by (induction js arbitrary: i v) (simp_all add: swap_map)

lemma apply_draws_inj:
  assumes "distinct v"
  shows "bounded_from 0 js \<Longrightarrow> bounded_from 0 js' \<Longrightarrow> length js = length js' \<Longrightarrow>
         length js \<le> length v \<Longrightarrow> apply_draws 0 js v = apply_draws 0 js' v \<Longrightarrow> js = js'"
proof (induction js arbitrary: js' rule: rev_induct)
  case Nil
  then show ?case by simp
next
  case (snoc j js)
  from snoc.prems(3) obtain j' js0 where js': "js' = js0 @ [j']"
    by (cases js' rule: rev_cases) auto
  let ?n = "length js"
  let ?w = "apply_draws 0 js v" and ?w' = "apply_draws 0 js0 v"
  have len: "length js0 = ?n" and n: "?n < length v"
    using snoc.prems(3,4) js' by simp_all
  have b: "bounded_from 0 js" "j \<le> ?n" "bounded_from 0 js0" "j' \<le> ?n"
    using snoc.prems(1,2) js' len by (simp_all add: bounded_from_snoc)
  have eq: "swap ?w ?n j = swap ?w' ?n j'"
    using snoc.prems(5) js' len by (simp add: apply_draws_snoc)
  have "swap ?w ?n j ! j = ?w ! ?n"
    using n b(2) by (simp add: nth_swap_left)
  also have "\<dots> = v ! ?n"
    using b(1) by (simp add: apply_draws_beyond)
  finally have at_j: "swap ?w ?n j ! j = v ! ?n" .
  have "swap ?w' ?n j' ! j' = ?w' ! ?n"
    using n b(4) by (simp add: nth_swap_left)
  also have "\<dots> = v ! ?n"
    using b(3) len by (simp add: apply_draws_beyond)
  finally have at_j': "swap ?w ?n j ! j' = v ! ?n"
    by (simp add: eq)
  have "mset (swap ?w ?n j) = mset v"
    using n b(1,2) by (simp add: mset_swap_vec mset_apply_draws)
  then have d: "distinct (swap ?w ?n j)"
    using assms by (metis mset_eq_imp_distinct_iff)
  have lj: "j < length (swap ?w ?n j)" and lj': "j' < length (swap ?w ?n j)"
    using n b(2,4) by simp_all
  have "(swap ?w ?n j ! j = swap ?w ?n j ! j') = (j = j')"
    using d lj lj' by (rule nth_eq_iff_index_eq)
  then have j: "j = j'"
    using at_j at_j' by simp
  have "?w = swap (swap ?w ?n j) ?n j"
    using n b(2) by (simp add: swap_twice)
  also have "\<dots> = swap (swap ?w' ?n j) ?n j"
    using eq j by simp
  also have "\<dots> = ?w'"
    using n b(2) by (simp add: swap_twice)
  finally have "js = js0"
    using snoc.IH [of js0] b(1,3) len n by simp
  with j js' show ?case by simp
qed

lemma apply_draws_surj:
  "mset xs = mset v \<Longrightarrow>
   \<exists>js. length js = length v \<and> bounded_from 0 js \<and> apply_draws 0 js v = xs"
proof (induction v arbitrary: xs rule: rev_induct)
  case Nil
  then show ?case by (intro exI [of _ "[]"]) simp
next
  case (snoc a v)
  let ?n = "length v"
  have lxs: "length xs = Suc ?n"
    using snoc.prems by (metis length_append_singleton mset_eq_length)
  have "a \<in> set xs"
    using snoc.prems by (metis in_set_conv_decomp mset_eq_setD)
  then obtain j where j: "j < length xs" "xs ! j = a"
    by (auto simp: in_set_conv_nth)
  let ?xs' = "swap xs ?n j"
  have last': "?xs' ! ?n = a"
    using j lxs by (simp add: nth_swap_right)
  have lxs': "length ?xs' = Suc ?n"
    using lxs by simp
  have split: "?xs' = butlast ?xs' @ [a]"
  proof -
    have ne: "?xs' \<noteq> []" using lxs' by (cases ?xs') simp_all
    then have "last ?xs' = ?xs' ! (length ?xs' - 1)"
      by (rule last_conv_nth)
    then have "last ?xs' = a"
      using last' by (simp only: lxs' diff_Suc_1)
    with ne show ?thesis by (metis append_butlast_last_id)
  qed
  have "mset ?xs' = mset (v @ [a])"
    using snoc.prems j lxs by (simp add: mset_swap_vec)
  then have "mset (butlast ?xs') + {#a#} = mset v + {#a#}"
    by (subst (asm) split) simp
  then have "mset (butlast ?xs') = mset v"
    by simp
  then obtain js where js: "length js = ?n" "bounded_from 0 js"
      "apply_draws 0 js v = butlast ?xs'"
    using snoc.IH by blast
  have "apply_draws 0 (js @ [j]) (v @ [a]) = swap (apply_draws 0 js v @ [a]) ?n j"
    using js(1,2) by (simp add: apply_draws_snoc apply_draws_append)
  also have "\<dots> = swap ?xs' ?n j"
    using js(3) split by simp
  also have "\<dots> = xs"
    using j lxs by (simp add: swap_twice)
  finally have "apply_draws 0 (js @ [j]) (v @ [a]) = xs" .
  moreover have "bounded_from 0 (js @ [j])"
    using js(1,2) j lxs by (simp add: bounded_from_snoc)
  moreover have "length (js @ [j]) = length (v @ [a])"
    using js(1) by simp
  ultimately show ?case by blast
qed

subsection \<open>Counting the draw sequences\<close>

lemma draw_seqs_0: "draw_seqs 0 = {[]}"
  by (auto simp: draw_seqs_def)

lemma draw_seqs_Suc:
  "draw_seqs (Suc n) = (\<lambda>(js, j). js @ [j]) ` (draw_seqs n \<times> {..n})"
proof (intro set_eqI iffI)
  fix js assume "js \<in> draw_seqs (Suc n)"
  then have l: "length js = Suc n" and b: "bounded_from 0 js"
    by (simp_all add: draw_seqs_def)
  from l obtain js0 j where js: "js = js0 @ [j]"
    by (cases js rule: rev_cases) auto
  with l b have "js0 \<in> draw_seqs n" "j \<in> {..n}"
    by (simp_all add: draw_seqs_def bounded_from_snoc)
  with js show "js \<in> (\<lambda>(js, j). js @ [j]) ` (draw_seqs n \<times> {..n})"
    by auto
next
  fix js assume "js \<in> (\<lambda>(js, j). js @ [j]) ` (draw_seqs n \<times> {..n})"
  then show "js \<in> draw_seqs (Suc n)"
    by (auto simp: draw_seqs_def bounded_from_snoc)
qed

lemma finite_draw_seqs: "finite (draw_seqs n)"
  by (induction n) (simp_all add: draw_seqs_0 draw_seqs_Suc)

lemma card_draw_seqs: "card (draw_seqs n) = fact n"
proof (induction n)
  case 0
  show ?case by (simp add: draw_seqs_0)
next
  case (Suc n)
  have "inj_on (\<lambda>(js, j). js @ [j]) (draw_seqs n \<times> {..n})"
    by (auto simp: inj_on_def)
  then have "card (draw_seqs (Suc n)) = card (draw_seqs n \<times> {..n})"
    by (simp add: draw_seqs_Suc card_image)
  also have "\<dots> = fact n * Suc n"
    using Suc by (simp add: card_cartesian_product)
  finally show ?case by (simp add: mult.commute)
qed

section \<open>The shuffle\<close>

lemma Randomize_forced_apply:
  "js \<in> draw_seqs (length v) \<Longrightarrow> Randomize_forced js v = apply_draws 0 js v"
  by (simp add: Randomize_forced_def draw_seqs_def Randomize_loop_forced)

lemma mset_Randomize_loop:
  "in_range draw \<Longrightarrow> mset (snd (Randomize_loop draw i g v)) = mset v"
proof -
  assume r: "in_range draw"
  have "bounded_from i (draws_of draw i g (length v - i))"
    using r by (rule bounded_draws_of)
  then show ?thesis
    by (cases "i \<le> length v")
       (simp_all add: Randomize_loop_draws_of mset_apply_draws Randomize_loop_done)
qed

lemma Randomize_loop_identity:
  "\<forall>i g. fst (draw i g) = i \<Longrightarrow> snd (Randomize_loop draw i g v) = v"
proof (induction draw i g v rule: Randomize_loop.induct)
  case (1 draw i g v)
  show ?case
  proof (cases "i < length v")
    case False
    then show ?thesis by (simp add: Randomize_loop_done)
  next
    case True
    obtain j g' where d: "draw i g = (j, g')" by (cases "draw i g")
    have j: "j = i" using "1.prems" d by (metis fst_conv)
    have "Randomize_loop draw i g v = Randomize_loop draw (Suc i) g' (swap v i j)"
      using True d by (rule Randomize_loop_step)
    then show ?thesis
      using "1.IH" [OF True d [symmetric]] "1.prems" j by simp
  qed
qed

lemma bij_betw_apply_draws:
  assumes "distinct v"
  shows "bij_betw (\<lambda>js. apply_draws 0 js v) (draw_seqs (length v)) {xs. mset xs = mset v}"
  unfolding bij_betw_def
proof
  show "inj_on (\<lambda>js. apply_draws 0 js v) (draw_seqs (length v))"
    using apply_draws_inj [OF assms] by (auto simp: inj_on_def draw_seqs_def)
  show "(\<lambda>js. apply_draws 0 js v) ` draw_seqs (length v) = {xs. mset xs = mset v}"
  proof (intro set_eqI iffI)
    fix xs assume "xs \<in> (\<lambda>js. apply_draws 0 js v) ` draw_seqs (length v)"
    then show "xs \<in> {xs. mset xs = mset v}"
      by (auto simp: draw_seqs_def mset_apply_draws)
  next
    fix xs assume "xs \<in> {xs. mset xs = mset v}"
    then obtain js where "length js = length v" "bounded_from 0 js" "apply_draws 0 js v = xs"
      using apply_draws_surj [of xs v] by auto
    then show "xs \<in> (\<lambda>js. apply_draws 0 js v) ` draw_seqs (length v)"
      by (auto simp: draw_seqs_def)
  qed
qed

lemma bij_betw_Randomize_forced:
  assumes "distinct v"
  shows "bij_betw (\<lambda>js. Randomize_forced js v) (draw_seqs (length v)) {xs. mset xs = mset v}"
proof -
  have "bij_betw (\<lambda>js. Randomize_forced js v) (draw_seqs (length v)) {xs. mset xs = mset v}
      = bij_betw (\<lambda>js. apply_draws 0 js v) (draw_seqs (length v)) {xs. mset xs = mset v}"
    by (rule bij_betw_cong) (simp add: Randomize_forced_apply)
  then show ?thesis
    using bij_betw_apply_draws [OF assms] by simp
qed

lemma Randomize_forced_indices:
  assumes "js \<in> draw_seqs (length v)"
  shows "Randomize_forced js v = map (nth v) (Randomize_forced js [0..<length v])"
proof -
  have b: "bounded_from 0 js" and l: "length js = length v"
    using assms by (simp_all add: draw_seqs_def)
  have "apply_draws 0 js (map (nth v) [0..<length v]) = map (nth v) (apply_draws 0 js [0..<length v])"
    using b l by (intro apply_draws_map) simp_all
  then have "apply_draws 0 js v = map (nth v) (apply_draws 0 js [0..<length v])"
    by (simp add: map_nth)
  then show ?thesis
    using assms by (simp add: Randomize_forced_apply)
qed

lemma Randomize_by_draws:
  "Randomize draw seed now v =
   apply_draws 0 (draws_of draw 0 (seed (GetEpochTime now)) (length v)) v"
  by (simp add: Randomize_def Randomize_loop_draws_of)

text \<open>
  C2: the shuffle is unbiased. The draw sequences \<open>(j\<^sub>0, \<dots>, j\<^sub>n\<^sub>-\<^sub>1)\<close> with \<open>j\<^sub>i\<close> in
  \<open>[0, i]\<close> are \<open>n!\<close> in number, and the map from them to the resulting permutations is a
  bijection: onto the permutations of the positions \<open>0, \<dots>, n - 1\<close>, which the result for
  any sequence \<open>v\<close> follows, and so onto the orderings of \<open>v\<close> when its elements are
  distinct. A generator that keeps to the requested ranges acts through its draw
  sequence only. So when every value of every requested range is equally likely, each
  draw sequence has probability \<open>1/n!\<close>, and so has each of the \<open>n!\<close> orderings.
\<close>

theorem Randomize_unbiased:
  fixes v :: "'a list" and draw :: "'g rng"
  shows "card (draw_seqs (length v)) = fact (length v)
    \<and> bij_betw (\<lambda>js. Randomize_forced js [0..<length v]) (draw_seqs (length v))
         {p. mset p = mset [0..<length v]}
    \<and> (\<forall>js \<in> draw_seqs (length v).
          Randomize_forced js v = map (nth v) (Randomize_forced js [0..<length v]))
    \<and> (distinct v \<longrightarrow>
          bij_betw (\<lambda>js. Randomize_forced js v) (draw_seqs (length v)) {xs. mset xs = mset v})
    \<and> (in_range draw \<longrightarrow>
          draws_of draw 0 (seed (GetEpochTime now)) (length v) \<in> draw_seqs (length v)
          \<and> Randomize draw seed now v
              = Randomize_forced (draws_of draw 0 (seed (GetEpochTime now)) (length v)) v)"
proof (intro conjI ballI impI)
  show "card (draw_seqs (length v)) = fact (length v)"
    by (rule card_draw_seqs)
  show "bij_betw (\<lambda>js. Randomize_forced js [0..<length v]) (draw_seqs (length v))
         {p. mset p = mset [0..<length v]}"
    using bij_betw_Randomize_forced [of "[0..<length v]"] by simp
  show "Randomize_forced js v = map (nth v) (Randomize_forced js [0..<length v])"
    if "js \<in> draw_seqs (length v)" for js
    using that by (rule Randomize_forced_indices)
  show "bij_betw (\<lambda>js. Randomize_forced js v) (draw_seqs (length v)) {xs. mset xs = mset v}"
    if "distinct v"
    using that by (rule bij_betw_Randomize_forced)
  show d: "draws_of draw 0 (seed (GetEpochTime now)) (length v) \<in> draw_seqs (length v)"
    if "in_range draw"
    using that by (simp add: draw_seqs_def bounded_draws_of)
  show "Randomize draw seed now v
        = Randomize_forced (draws_of draw 0 (seed (GetEpochTime now)) (length v)) v"
    if "in_range draw"
    using d [OF that] by (simp add: Randomize_forced_apply Randomize_by_draws)
qed

lemma in_range_counting: "in_range counting"
  by (simp add: in_range_def counting_def)

theorem Randomize_unbiased_witness:
  "distinct [''x'', ''y''] \<and> in_range counting
   \<and> card (draw_seqs 2) = 2
   \<and> bij_betw (\<lambda>js. Randomize_forced js [''x'', ''y'']) (draw_seqs 2)
        {xs. mset xs = mset [''x'', ''y'']}
   \<and> Randomize_forced [0, 0] [''x'', ''y''] = [''y'', ''x'']
   \<and> Randomize_forced [0, 1] [''x'', ''y''] = [''x'', ''y'']
   \<and> Randomize counting unat 0 [''x'', ''y''] = Randomize_forced [0, 0] [''x'', ''y'']"
  using Randomize_unbiased [where v = "[''x'', ''y'']" and draw = counting and seed = unat
      and now = 0]
  by (simp add: in_range_counting numeral_2_eq_2 Randomize_forced_def Randomize_def
      Randomize_loop.simps swap_def counting_def)

text \<open>
  C1: \<open>Randomize\<close> performs exactly these steps on a sequence of length \<open>n\<close>: for the
  index \<open>i\<close> running from 0 to \<open>n - 1\<close> in increasing order, it draws one number \<open>j\<close>
  from the range \<open>[0, i]\<close> and exchanges the elements at the positions \<open>i\<close> and \<open>j\<close>. On
  the input x, y with the draw at \<open>i = 1\<close> forced to 0 the result is y, x; and on any
  input, when every draw at step \<open>i\<close> returns \<open>i\<close>, the sequence is unchanged.
\<close>

theorem Randomize_steps:
  "Randomize_loop draw 0 g v = shuffle_steps draw g v
   \<and> Randomize draw seed now v = snd (shuffle_steps draw (seed (GetEpochTime now)) v)
   \<and> Randomize_forced [0, 0] [''x'', ''y''] = [''y'', ''x'']
   \<and> ((\<forall>i g. fst (draw i g) = i) \<longrightarrow>
         Randomize draw seed now v = v \<and> snd (Randomize_loop draw 0 g v) = v)"
proof (intro conjI impI)
  show "Randomize_loop draw 0 g v = shuffle_steps draw g v"
    by (simp add: shuffle_steps_def Randomize_loop_fold)
  show "Randomize draw seed now v = snd (shuffle_steps draw (seed (GetEpochTime now)) v)"
    by (simp add: Randomize_def shuffle_steps_def Randomize_loop_fold)
  show "Randomize_forced [0, 0] [''x'', ''y''] = [''y'', ''x'']"
    by (simp add: Randomize_forced_def Randomize_loop.simps swap_def)
  show "Randomize draw seed now v = v" if "\<forall>i g. fst (draw i g) = i"
    using that by (simp add: Randomize_def Randomize_loop_identity)
  show "snd (Randomize_loop draw 0 g v) = v" if "\<forall>i g. fst (draw i g) = i"
    using that by (rule Randomize_loop_identity)
qed

theorem Randomize_steps_witness:
  "fst (echo 3 ()) = 3
   \<and> Randomize echo (\<lambda>s. ()) 0 [''apple'', ''banana'', ''cherry'', ''date'']
       = [''apple'', ''banana'', ''cherry'', ''date'']
   \<and> Randomize_forced [0, 1, 2, 3] [''apple'', ''banana'', ''cherry'', ''date'']
       = [''apple'', ''banana'', ''cherry'', ''date'']
   \<and> shuffle_steps forced [0, 0] [''x'', ''y''] = ([], [''y'', ''x''])"
proof -
  have e: "\<forall>i g. fst (echo i g) = i"
    by (simp add: echo_def)
  have "Randomize echo (\<lambda>s. ()) 0 [''apple'', ''banana'', ''cherry'', ''date'']
       = [''apple'', ''banana'', ''cherry'', ''date'']"
    using Randomize_steps [where draw = echo and seed = "\<lambda>s. ()" and now = 0 and g = "()"
        and v = "[''apple'', ''banana'', ''cherry'', ''date'']"] e
    by blast
  moreover have "shuffle_steps forced [0, 0] [''x'', ''y''] = ([], [''y'', ''x''])"
    using Randomize_steps [where draw = forced and v = "[''x'', ''y'']" and g = "[0, 0]",
        THEN conjunct1, symmetric]
    by (simp add: Randomize_loop.simps swap_def)
  moreover have "Randomize_forced [0, 1, 2, 3] [''apple'', ''banana'', ''cherry'', ''date'']
       = [''apple'', ''banana'', ''cherry'', ''date'']"
    by (simp add: Randomize_forced_def Randomize_loop.simps swap_def)
  ultimately show ?thesis
    using e by simp
qed

lemma mset_Randomize: "in_range draw \<Longrightarrow> mset (Randomize draw seed now v) = mset v"
  by (simp add: Randomize_def mset_Randomize_loop)

text \<open>
  C3: for every sequence and every sequence of draws within the requested ranges, the
  shuffle conserves the multiset of the elements: the result is a reordering of the
  input. So the multiset of the non-blank lines of the output file is the multiset of
  the non-blank lines of the input file.
\<close>

theorem Randomize_conserves_mset:
  assumes "in_range draw"
  shows "mset (Randomize draw seed now v) = mset v
    \<and> (\<forall>js \<in> draw_seqs (length v). mset (Randomize_forced js v) = mset v)
    \<and> (files fs Input_txt = Some c \<and> readable fs Input_txt \<and> writable fs Output_txt \<longrightarrow>
         (\<exists>out. files (snd (main draw seed now fs)) Output_txt = Some out
                \<and> mset (nonblank_lines out) = mset (nonblank_lines c)))"
proof (intro conjI ballI impI)
  show "mset (Randomize draw seed now v) = mset v"
    using assms by (rule mset_Randomize)
  show "mset (Randomize_forced js v) = mset v" if "js \<in> draw_seqs (length v)" for js
    using that by (simp add: Randomize_forced_apply) (simp add: draw_seqs_def mset_apply_draws)
  show "\<exists>out. files (snd (main draw seed now fs)) Output_txt = Some out
              \<and> mset (nonblank_lines out) = mset (nonblank_lines c)"
    if io: "files fs Input_txt = Some c \<and> readable fs Input_txt \<and> writable fs Output_txt"
  proof -
    let ?v = "Randomize draw seed now (nonblank_lines c)"
    have m: "mset ?v = mset (nonblank_lines c)"
      using assms by (rule mset_Randomize)
    then have "set ?v = set (nonblank_lines c)"
      by (rule mset_eq_setD)
    then have "\<forall>s \<in> set ?v. s \<noteq> [] \<and> newline \<notin> set s"
      using nonblank_lines_sound by blast
    then have "nonblank_lines (concat (map record_of ?v)) = ?v"
      by (simp add: nonblank_lines_records filter_id_conv)
    moreover have "files (snd (main draw seed now fs)) Output_txt = Some (concat (map record_of ?v))"
      using io by (simp add: main_def ReadStrings_readable WriteStrings_writable)
    ultimately show ?thesis
      using m by simp
  qed
qed

theorem Randomize_conserves_mset_witness:
  "in_range counting \<and> [0, 0, 0] \<in> draw_seqs 3
   \<and> files example_fs Input_txt = Some example_text
   \<and> nonblank_lines example_text = [''a b'', '' c'', ''d'']
   \<and> Randomize counting unat 0 [''a b'', '' c'', ''d''] = [''d'', ''a b'', '' c'']
   \<and> files (snd (main counting unat 0 example_fs)) Output_txt
       = Some (''d'' @ [newline] @ ''a b'' @ [newline] @ '' c'' @ [newline])
   \<and> mset (Randomize counting unat 0 [''a b'', '' c'', ''d'']) = mset [''a b'', '' c'', ''d'']"
proof -
  have nb: "nonblank_lines example_text = [''a b'', '' c'', ''d'']"
    by (simp add: nonblank_lines_def example_text_def newline_def)
  have r: "Randomize counting unat 0 [''a b'', '' c'', ''d''] = [''d'', ''a b'', '' c'']"
    by (simp add: Randomize_def Randomize_loop.simps swap_def counting_def)
  have f: "files example_fs Input_txt = Some example_text" "readable example_fs Input_txt"
      "writable example_fs Output_txt"
    by (simp_all add: example_fs_def Input_not_Output)
  have "files (snd (main counting unat 0 example_fs)) Output_txt
       = Some (''d'' @ [newline] @ ''a b'' @ [newline] @ '' c'' @ [newline])"
    using f by (simp add: main_def ReadStrings_readable WriteStrings_writable nb r record_of_def)
  moreover have "[0, 0, 0] \<in> draw_seqs 3"
    by (simp add: draw_seqs_def)
  ultimately show ?thesis
    using Randomize_conserves_mset [OF in_range_counting, of unat 0 "[''a b'', '' c'', ''d'']"
        example_fs example_text]
    by (simp add: in_range_counting nb r f)
qed

lemma Randomize_Nil: "Randomize draw seed now [] = []"
  by (simp add: Randomize_def Randomize_loop_done)

lemma Randomize_loop_single:
  assumes "length v = 1" and "fst (draw 0 g) = 0"
  shows "Randomize_loop draw 0 g v = (snd (draw 0 g), v)"
proof -
  have d: "draw 0 g = (0, snd (draw 0 g))"
    using assms(2) by (metis prod.collapse)
  have "Randomize_loop draw 0 g v = Randomize_loop draw (Suc 0) (snd (draw 0 g)) (swap v 0 0)"
    using assms(1) d by (intro Randomize_loop_step) simp_all
  then show ?thesis
    using assms(1) by (simp add: Randomize_loop_done)
qed

text \<open>
  C6 does not hold as stated for a sequence of length 1: the loop starts at \<open>i = 0\<close>, so
  one draw is made there, from the range \<open>[0, 0]\<close>. On one element the generator that
  counts its draws has served one.
\<close>

theorem one_element_one_draw:
  "Randomize_loop counting 0 0 [''a''] = (1, [''a''])
   \<and> fst (Randomize_loop counting 0 0 [''a'']) \<noteq> 0"
  by (simp add: Randomize_loop.simps counting_def)

text \<open>
  C6, amended: on the empty sequence the shuffle makes no draw and leaves the generator
  as it was; on a sequence of length 1 it makes exactly one draw, from the range
  \<open>[0, 0]\<close>, which can only return 0; in both cases the sequence is unchanged.
\<close>

theorem Randomize_trivial:
  "(v = [] \<longrightarrow> Randomize_loop draw 0 g v = (g, v))
   \<and> (length v = 1 \<and> fst (draw 0 g) = 0 \<longrightarrow>
        Randomize_loop draw 0 g v = (snd (draw 0 g), v))
   \<and> (length v \<le> 1 \<and> in_range draw \<longrightarrow> Randomize draw seed now v = v)"
proof (intro conjI impI)
  show "Randomize_loop draw 0 g v = (g, v)" if "v = []"
    using that by (simp add: Randomize_loop_done)
  show "Randomize_loop draw 0 g v = (snd (draw 0 g), v)"
    if "length v = 1 \<and> fst (draw 0 g) = 0"
    using that by (simp add: Randomize_loop_single)
  show "Randomize draw seed now v = v" if h: "length v \<le> 1 \<and> in_range draw"
  proof (cases "v = []")
    case True
    then show ?thesis by (simp add: Randomize_Nil)
  next
    case False
    with h have l: "length v = 1"
      by (cases v) simp_all
    from h have "fst (draw 0 (seed (GetEpochTime now))) \<le> 0"
      unfolding in_range_def by blast
    with l show ?thesis
      by (simp add: Randomize_def Randomize_loop_single)
  qed
qed

theorem Randomize_trivial_witness:
  "Randomize_loop counting 0 5 ([] :: string list) = (5, [])
   \<and> length [''a''] = 1 \<and> fst (counting 0 5) = 0 \<and> in_range counting
   \<and> Randomize_loop counting 0 5 [''a''] = (6, [''a''])
   \<and> Randomize counting unat 0 [''a''] = [''a'']"
  using Randomize_trivial [where v = "[] :: string list" and draw = counting and g = 5]
    Randomize_trivial [where v = "[''a'']" and draw = counting and g = 5 and seed = unat
      and now = 0]
  by (simp add: counting_def in_range_counting)

text \<open>
  C8: when the input file does not exist or cannot be opened, no error is raised:
  \<open>ReadStrings\<close> gives the empty sequence and the program completes with exit code 0,
  having written the empty sequence; the output file, when it can be opened for writing,
  is left empty. The exit code and the output file are those of a run on an input with
  no non-blank line.
\<close>

theorem missing_input_empty_output:
  assumes "files fs Input_txt = None \<or> \<not> readable fs Input_txt"
  shows "ReadStrings fs Input_txt v = []
    \<and> main draw seed now fs = (0, WriteStrings fs Output_txt [])
    \<and> (writable fs Output_txt \<longrightarrow> files (snd (main draw seed now fs)) Output_txt = Some [])
    \<and> (nonblank_lines c = [] \<longrightarrow>
         fst (main draw seed now
               (fs\<lparr>files := (files fs)(Input_txt \<mapsto> c),
                   readable := (readable fs)(Input_txt := True)\<rparr>))
           = fst (main draw seed now fs)
         \<and> files (snd (main draw seed now
               (fs\<lparr>files := (files fs)(Input_txt \<mapsto> c),
                   readable := (readable fs)(Input_txt := True)\<rparr>))) Output_txt
           = files (snd (main draw seed now fs)) Output_txt)"
proof (intro conjI impI)
  show r: "ReadStrings fs Input_txt v = []" for v
    using assms by (rule ReadStrings_unreadable)
  show m: "main draw seed now fs = (0, WriteStrings fs Output_txt [])"
    by (simp add: main_def r Randomize_Nil)
  show "files (snd (main draw seed now fs)) Output_txt = Some []" if "writable fs Output_txt"
    using that by (simp add: m WriteStrings_writable)
  let ?fs = "fs\<lparr>files := (files fs)(Input_txt \<mapsto> c),
                  readable := (readable fs)(Input_txt := True)\<rparr>"
  assume "nonblank_lines c = []"
  then have m': "main draw seed now ?fs = (0, WriteStrings ?fs Output_txt [])"
    by (simp add: main_def ReadStrings_readable Randomize_Nil)
  show "fst (main draw seed now ?fs) = fst (main draw seed now fs)"
    by (simp add: m m')
  show "files (snd (main draw seed now ?fs)) Output_txt
        = files (snd (main draw seed now fs)) Output_txt"
    using Input_not_Output
    by (cases "writable fs Output_txt")
       (simp_all add: m m' WriteStrings_writable WriteStrings_unwritable)
qed

theorem missing_input_empty_output_witness:
  "files missing_fs Input_txt = None
   \<and> ReadStrings missing_fs Input_txt [''stale''] = []
   \<and> fst (main counting unat 0 missing_fs) = 0
   \<and> files missing_fs Output_txt = Some ''old''
   \<and> files (snd (main counting unat 0 missing_fs)) Output_txt = Some []"
proof -
  have h: "files missing_fs Input_txt = None \<or> \<not> readable missing_fs Input_txt"
    and w: "writable missing_fs Output_txt"
    and o: "files missing_fs Output_txt = Some ''old''"
    using Input_not_Output by (simp_all add: missing_fs_def)
  note t = missing_input_empty_output [OF h, where v = "[''stale'']" and draw = counting
      and seed = unat and now = 0]
  have "ReadStrings missing_fs Input_txt [''stale''] = []"
    using t by (rule conjunct1)
  moreover have m: "main counting unat 0 missing_fs = (0, WriteStrings missing_fs Output_txt [])"
    using t by blast
  moreover have "files (snd (main counting unat 0 missing_fs)) Output_txt = Some []"
    using t w by blast
  ultimately show ?thesis
    using h w o Input_not_Output by (simp add: missing_fs_def)
qed

text \<open>
  C9: determinism under equal seed. Two runs whose clock readings give the same seed
  (the same whole second) produce the same permutation of the same sequence, hence the
  same file system from the same file system, and the same output file from equal
  inputs.
\<close>

theorem same_seed_same_output:
  assumes "GetEpochTime now1 = GetEpochTime now2"
  shows "Randomize draw seed now1 v = Randomize draw seed now2 v
    \<and> main draw seed now1 fs = main draw seed now2 fs
    \<and> (files fs1 Input_txt = files fs2 Input_txt
         \<and> readable fs1 Input_txt = readable fs2 Input_txt
         \<and> writable fs1 Output_txt \<and> writable fs2 Output_txt \<longrightarrow>
         files (snd (main draw seed now1 fs1)) Output_txt
           = files (snd (main draw seed now2 fs2)) Output_txt)"
proof (intro conjI impI)
  show "Randomize draw seed now1 v = Randomize draw seed now2 v"
    using assms by (simp add: Randomize_def)
  show "main draw seed now1 fs = main draw seed now2 fs"
    using assms by (simp add: main_def Randomize_def)
  assume io: "files fs1 Input_txt = files fs2 Input_txt
         \<and> readable fs1 Input_txt = readable fs2 Input_txt
         \<and> writable fs1 Output_txt \<and> writable fs2 Output_txt"
  then have "ifstream_open fs1 Input_txt = ifstream_open fs2 Input_txt"
    by (auto simp: ifstream_open_def split: option.splits)
  then have "ReadStrings fs1 Input_txt [] = ReadStrings fs2 Input_txt []"
    by (simp add: ReadStrings_def)
  then show "files (snd (main draw seed now1 fs1)) Output_txt
           = files (snd (main draw seed now2 fs2)) Output_txt"
    using io assms by (simp add: main_def Randomize_def WriteStrings_writable)
qed

theorem same_seed_same_output_witness:
  "GetEpochTime 1700000000 = GetEpochTime (1700000000 + 2 ^ 32)
   \<and> main counting unat 1700000000 example_fs = main counting unat (1700000000 + 2 ^ 32) example_fs
   \<and> Randomize counting unat 1700000000 [''x'', ''y'']
       = Randomize counting unat (1700000000 + 2 ^ 32) [''x'', ''y'']"
proof -
  have s: "GetEpochTime 1700000000 = GetEpochTime (1700000000 + 2 ^ 32)"
    by (simp add: GetEpochTime_def)
  show ?thesis
    using same_seed_same_output [OF s, where draw = counting and seed = unat
        and fs = example_fs and v = "[''x'', ''y'']"] s
    by simp
qed

end
